theory Spec2Isabelle
  imports Main "HOL-Library.Word"
begin

section \<open>Errors and panics\<close>

text \<open>
  Go's \<open>error\<close> values, kept structurally. \<open>AdbErr\<close> is an error of the adb library
  carrying an error code, \<open>Msg\<close> an error made from a formatted message alone and
  \<open>Errorf_v\<close> the result of \<open>fmt.Errorf(prefix + "%v", e)\<close>. \<open>Errorf_w_code\<close> is the result
  of \<open>fmt.Errorf(prefix + "%w", c)\<close> for an error code \<open>c\<close> of the adb library: the operand
  is a code and not an error, so the result is an error made from the message and the
  formatted code, and it has no error inside. A Go \<open>error\<close> that may be \<open>nil\<close> is an
  \<open>error option\<close>.
\<close>

datatype errcode = DeviceNotFound | FileNoExistError | OtherCode nat

datatype error =
    AdbErr errcode
  | Msg string
  | Errorf_v string error
  | Errorf_w_code string errcode

text \<open>The argument of a formatting verb \<open>'%s'\<close>: the string between apostrophes.\<close>

definition quoted :: "string \<Rightarrow> string" where
  "quoted s = CHR 0x27 # s @ [CHR 0x27]"

text \<open>
  A panic of the Go runtime, by its cause: the \<open>panic(...)\<close> calls of \<open>LogEntry\<close> with the
  values their messages are formatted from, and the dereference of a \<open>nil\<close> pointer. A
  function that may panic returns \<open>panic + 'a\<close>.
\<close>

datatype panic =
    ErrAlreadySet error "error option"
  | ResultAlreadySet string string
  | StatusAlreadySet string string
  | CacheUseAlreadyReported
  | NilPointerDereference

section \<open>The directory-listing decoder\<close>

subsection \<open>The scanner\<close>

text \<open>
  Modelled from the spec: \<open>wire.SyncScanner\<close>, the transport capability that the decoder
  consumes, is not part of the sources. It is a sequential source of already-framed
  values with a \<open>close\<close> operation; every read may fail. The model is a queue of pending
  answers: each read takes the next answer, and fails when the queue is empty, when the
  answer is a failure, when the answer is of another kind than the one asked for, or when
  the scanner has been closed. \<open>reads\<close> and \<open>closes\<close> count the calls made on the scanner.
\<close>

datatype token =
    TStr string
  | TMode "32 word"
  | TInt32 "32 word"
  | TTime int
  | TFail error

record scanner =
  pending :: "token list"
  reads :: nat
  closes :: nat

definition errClosed :: error where
  "errClosed = Msg ''scanner: closed''"

definition errEOF :: error where
  "errEOF = Msg ''scanner: EOF''"

definition errFraming :: error where
  "errFraming = Msg ''scanner: unexpected value''"

text \<open>
  One read: \<open>pick\<close> selects the kind of value asked for. The result is the value or the
  error, and the scanner after the call.
\<close>

definition scan :: "(token \<Rightarrow> 'a option) \<Rightarrow> scanner \<Rightarrow> (error + 'a) \<times> scanner" where
  "scan pick s =
     (let s1 = s\<lparr>reads := Suc (reads s)\<rparr> in
      if 0 < closes s then (Inl errClosed, s1)
      else case pending s of
             [] \<Rightarrow> (Inl errEOF, s1)
           | t # ts \<Rightarrow>
               (case t of
                  TFail e \<Rightarrow> (Inl e, s1\<lparr>pending := ts\<rparr>)
                | _ \<Rightarrow> (case pick t of
                         Some v \<Rightarrow> (Inr v, s1\<lparr>pending := ts\<rparr>)
                       | None \<Rightarrow> (Inl errFraming, s1\<lparr>pending := ts\<rparr>))))"

fun pickStr :: "token \<Rightarrow> string option" where
  "pickStr (TStr x) = Some x"
| "pickStr _ = None"

fun pickMode :: "token \<Rightarrow> 32 word option" where
  "pickMode (TMode m) = Some m"
| "pickMode _ = None"

fun pickInt32 :: "token \<Rightarrow> 32 word option" where
  "pickInt32 (TInt32 n) = Some n"
| "pickInt32 _ = None"

fun pickTime :: "token \<Rightarrow> int option" where
  "pickTime (TTime t) = Some t"
| "pickTime _ = None"

definition ReadOctetString :: "scanner \<Rightarrow> (error + string) \<times> scanner" where
  "ReadOctetString = scan pickStr"

definition ReadFileMode :: "scanner \<Rightarrow> (error + 32 word) \<times> scanner" where
  "ReadFileMode = scan pickMode"

definition ReadInt32 :: "scanner \<Rightarrow> (error + 32 word) \<times> scanner" where
  "ReadInt32 = scan pickInt32"

definition ReadTime :: "scanner \<Rightarrow> (error + int) \<times> scanner" where
  "ReadTime = scan pickTime"

definition ReadString :: "scanner \<Rightarrow> (error + string) \<times> scanner" where
  "ReadString = scan pickStr"

definition scanner_Close :: "scanner \<Rightarrow> scanner" where
  "scanner_Close s = s\<lparr>closes := Suc (closes s)\<rparr>"

subsection \<open>DirEntry, DirEntries and Next\<close>

text \<open>
  \<open>Mode\<close> is an \<open>os.FileMode\<close>, 32 bits; \<open>Size\<close> is an \<open>int32\<close>, a 32-bit word that
  \<open>sint\<close> reads as signed; \<open>ModifiedAt\<close> is a time in seconds. A pointer to an entry
  that may be \<open>nil\<close> is a \<open>DirEntry option\<close>.
\<close>

record DirEntry =
  Name :: string
  Mode :: "32 word"
  Size :: "32 word"
  ModifiedAt :: int

record DirEntries =
  scanner :: scanner
  currentEntry :: "DirEntry option"
  err :: "error option"

text \<open>
  \<open>readNextDirListEntry\<close> returns the triple \<open>(entry, done, err)\<close> of the source, and
  the scanner after the reads it made.
\<close>

definition readNextDirListEntry ::
    "scanner \<Rightarrow> (DirEntry option \<times> bool \<times> error option) \<times> scanner" where
  "readNextDirListEntry s =
     (case ReadOctetString s of
        (Inl e, s1) \<Rightarrow> ((None, False, Some e), s1)
      | (Inr ident, s1) \<Rightarrow>
          if ident = ''DONE'' then ((None, True, None), s1)
          else if ident \<noteq> ''DENT'' then
            ((None, False,
              Some (Msg (''error reading dir entries: expected dir entry ID '' @ quoted ''DENT''
                         @ '', but got '' @ quoted ident))), s1)
          else
            (case ReadFileMode s1 of
               (Inl e, s2) \<Rightarrow>
                 ((None, False,
                   Some (Errorf_v ''error reading dir entries: error reading file mode: '' e)), s2)
             | (Inr mode, s2) \<Rightarrow>
                 (case ReadInt32 s2 of
                    (Inl e, s3) \<Rightarrow>
                      ((None, False,
                        Some (Errorf_v ''error reading dir entries: error reading file size: '' e)), s3)
                  | (Inr size1, s3) \<Rightarrow>
                      (case ReadTime s3 of
                         (Inl e, s4) \<Rightarrow>
                           ((None, False,
                             Some (Errorf_v ''error reading dir entries: error reading file time: '' e)), s4)
                       | (Inr mtime, s4) \<Rightarrow>
                           (case ReadString s4 of
                              (Inl e, s5) \<Rightarrow>
                                ((None, False,
                                  Some (Errorf_v ''error reading dir entries: error reading file name: '' e)), s5)
                            | (Inr name, s5) \<Rightarrow>
                                ((Some \<lparr>Name = name, Mode = mode, Size = size1, ModifiedAt = mtime\<rparr>,
                                  False, None), s5))))))"

definition Close :: "DirEntries \<Rightarrow> DirEntries" where
  "Close entries = entries\<lparr>scanner := scanner_Close (scanner entries)\<rparr>"

definition Next :: "DirEntries \<Rightarrow> bool \<times> DirEntries" where
  "Next entries =
     (if err entries \<noteq> None then (False, entries)
      else case readNextDirListEntry (scanner entries) of
             ((entry, done, e), s1) \<Rightarrow>
               (let entries1 = entries\<lparr>scanner := s1\<rparr> in
                if e \<noteq> None then (False, Close (entries1\<lparr>err := e\<rparr>))
                else (let entries2 = entries1\<lparr>currentEntry := entry\<rparr> in
                      if done then (False, Close entries2)
                      else (True, entries2))))"

definition Entry :: "DirEntries \<Rightarrow> DirEntry option" where
  "Entry entries = currentEntry entries"

definition Err :: "DirEntries \<Rightarrow> error option" where
  "Err entries = err entries"

text \<open>A decoder over a scanner on which nothing has been read or closed yet.\<close>

definition newScanner :: "token list \<Rightarrow> scanner" where
  "newScanner ts = \<lparr>pending = ts, reads = 0, closes = 0\<rparr>"

definition newDirEntries :: "token list \<Rightarrow> DirEntries" where
  "newDirEntries ts = \<lparr>scanner = newScanner ts, currentEntry = None, err = None\<rparr>"

subsection \<open>Iterating the decoder\<close>

text \<open>
  The consumer's loop \<open>for entries.Next() { ... entries.Entry() ... }\<close>: it calls \<open>Next\<close>
  until it returns false and collects what \<open>Entry\<close> returns after each true. Every call
  that returns true has consumed answers of the scanner, which is why the loop ends.
\<close>

lemma scan_closes: "scan pick s = (r, s1) \<Longrightarrow> closes s1 = closes s"
  by (auto simp: scan_def Let_def split: if_splits list.splits token.splits option.splits)

lemma scan_reads: "scan pick s = (r, s1) \<Longrightarrow> reads s1 = Suc (reads s)"
  by (auto simp: scan_def Let_def split: if_splits list.splits token.splits option.splits)

lemma scan_pending_le: "scan pick s = (r, s1) \<Longrightarrow> length (pending s1) \<le> length (pending s)"
  by (auto simp: scan_def Let_def split: if_splits list.splits token.splits option.splits)

lemma scan_Inr_pending:
  "scan pick s = (Inr v, s1) \<Longrightarrow> length (pending s1) < length (pending s)"
  by (auto simp: scan_def Let_def split: if_splits list.splits token.splits option.splits)

lemmas read_defs = ReadOctetString_def ReadFileMode_def ReadInt32_def ReadTime_def ReadString_def

lemma readNext_more:
  "readNextDirListEntry s = ((entry, False, None), s1) \<Longrightarrow> length (pending s1) < length (pending s)"
  unfolding readNextDirListEntry_def read_defs
  by (auto split: prod.splits sum.splits if_splits dest!: scan_Inr_pending)

lemma Next_True_pending:
  "Next entries = (True, entries1) \<Longrightarrow>
     length (pending (scanner entries1)) < length (pending (scanner entries))"
  unfolding Next_def Let_def
  by (auto split: prod.splits if_splits dest!: readNext_more)

function drive :: "DirEntries \<Rightarrow> DirEntry option list \<times> DirEntries" where
  "drive entries =
     (case Next entries of
        (ok, entries1) \<Rightarrow>
          if ok then (case drive entries1 of (rest, final) \<Rightarrow> (Entry entries1 # rest, final))
          else ([], entries1))"
  by pat_completeness auto
termination
  apply (relation "measure (\<lambda>entries. length (pending (scanner entries)))")
  apply simp
  apply (auto dest: Next_True_pending [OF sym])
  done

declare drive.simps [simp del]

text \<open>\<open>k\<close> calls of \<open>Next\<close> in a row, whatever they return.\<close>

fun Next_times :: "nat \<Rightarrow> DirEntries \<Rightarrow> bool list \<times> DirEntries" where
  "Next_times 0 entries = ([], entries)"
| "Next_times (Suc k) entries =
     (case Next entries of
        (ok, entries1) \<Rightarrow>
          (case Next_times k entries1 of (oks, final) \<Rightarrow> (ok # oks, final)))"

text \<open>The wire form of one entry, and of a whole listing: its records, then \<open>DONE\<close>.\<close>

definition dent :: "DirEntry \<Rightarrow> token list" where
  "dent e = [TStr ''DENT'', TMode (Mode e), TInt32 (Size e), TTime (ModifiedAt e), TStr (Name e)]"

definition listing :: "DirEntry list \<Rightarrow> token list" where
  "listing es = concat (map dent es) @ [TStr ''DONE'']"

text \<open>The error of \<open>readNextDirListEntry\<close> for a tag that is neither \<open>DENT\<close> nor \<open>DONE\<close>.\<close>

definition unexpectedId :: "string \<Rightarrow> error" where
  "unexpectedId ident =
     Msg (''error reading dir entries: expected dir entry ID '' @ quoted ''DENT''
          @ '', but got '' @ quoted ident)"

section \<open>Paths\<close>

text \<open>
  \<open>path.Clean\<close>, \<open>path.Split\<close>, \<open>path.Dir\<close> and \<open>path.Base\<close> of Go's standard library,
  which \<open>CachingDeviceClient\<close> calls. \<open>Clean\<close> reads the path from left to right and
  writes into the buffer \<open>out\<close>; \<open>dotdot\<close> is the index in \<open>out\<close> below which a \<open>..\<close>
  element must not remove anything.
\<close>

definition slash :: char where
  "slash = CHR ''/''"

definition dot :: char where
  "dot = CHR ''.''"

fun LastIndexByte :: "string \<Rightarrow> char \<Rightarrow> nat option" where
  "LastIndexByte [] c = None"
| "LastIndexByte (x # xs) c =
     (case LastIndexByte xs c of
        Some i \<Rightarrow> Some (Suc i)
      | None \<Rightarrow> if x = c then Some 0 else None)"

function backtrack :: "string \<Rightarrow> nat \<Rightarrow> nat \<Rightarrow> nat" where
  "backtrack out dotdot w =
     (if dotdot < w \<and> out ! w \<noteq> slash then backtrack out dotdot (w - 1) else w)"
  by pat_completeness auto
termination
  by (relation "measure (\<lambda>(out, dotdot, w). w)") auto

declare backtrack.simps [simp del]

text \<open>The \<open>..\<close> element: remove the last element written, or keep the \<open>..\<close>.\<close>

definition dotdotElem :: "bool \<Rightarrow> string \<Rightarrow> nat \<Rightarrow> string \<times> nat" where
  "dotdotElem rooted out dotdot =
     (if dotdot < length out then (take (backtrack out dotdot (length out - 1)) out, dotdot)
      else if \<not> rooted then
        (let out1 = (if 0 < length out then out @ [slash] else out) @ [dot, dot]
         in (out1, length out1))
      else (out, dotdot))"

text \<open>A real path element: a slash if needed, then the element up to the next slash.\<close>

definition needSep :: "bool \<Rightarrow> string \<Rightarrow> bool" where
  "needSep rooted out = (rooted \<and> length out \<noteq> 1 \<or> \<not> rooted \<and> length out \<noteq> 0)"

definition realElem :: "bool \<Rightarrow> string \<Rightarrow> string \<Rightarrow> string" where
  "realElem rooted out p =
     (if needSep rooted out then out @ [slash] else out) @ takeWhile (\<lambda>x. x \<noteq> slash) p"

function clean_loop :: "bool \<Rightarrow> string \<Rightarrow> string \<Rightarrow> nat \<Rightarrow> string" where
  "clean_loop rooted [] out dotdot = out"
| "clean_loop rooted (c # cs) out dotdot =
     (if c = slash then clean_loop rooted cs out dotdot
      else if c = dot \<and> (cs = [] \<or> hd cs = slash) then clean_loop rooted cs out dotdot
      else if c = dot \<and> hd cs = dot \<and> (tl cs = [] \<or> hd (tl cs) = slash) then
        clean_loop rooted (tl cs) (fst (dotdotElem rooted out dotdot)) (snd (dotdotElem rooted out dotdot))
      else
        clean_loop rooted (dropWhile (\<lambda>x. x \<noteq> slash) (c # cs)) (realElem rooted out (c # cs)) dotdot)"
  by pat_completeness auto
termination
proof (relation "measure (\<lambda>(rooted, p, out, dotdot). length p)", goal_cases)
  case (5 rooted c cs out dotdot)
  have "length (dropWhile (\<lambda>x. x \<noteq> slash) cs) \<le> length cs"
    by (rule length_dropWhile_le)
  with 5 show ?case by simp
qed auto

declare clean_loop.simps [simp del]

definition Clean :: "string \<Rightarrow> string" where
  "Clean p =
     (if p = [] then ''.''
      else
        (let rooted = (hd p = slash);
             out = (if rooted then clean_loop rooted (tl p) [slash] 1
                    else clean_loop rooted p [] 0)
         in if out = [] then ''.'' else out))"

definition Split :: "string \<Rightarrow> string \<times> string" where
  "Split p =
     (case LastIndexByte p slash of
        None \<Rightarrow> ([], p)
      | Some i \<Rightarrow> (take (i + 1) p, drop (i + 1) p))"

definition Dir :: "string \<Rightarrow> string" where
  "Dir p = Clean (fst (Split p))"

function stripSlashes :: "string \<Rightarrow> string" where
  "stripSlashes p = (if 0 < length p \<and> p ! (length p - 1) = slash then stripSlashes (take (length p - 1) p) else p)"
  by pat_completeness auto
termination
  by (relation "measure length") auto

declare stripSlashes.simps [simp del]

definition Base :: "string \<Rightarrow> string" where
  "Base p =
     (if p = [] then ''.''
      else
        (let p1 = stripSlashes p;
             p2 = (case LastIndexByte p1 slash of Some i \<Rightarrow> drop (i + 1) p1 | None \<Rightarrow> p1)
         in if p2 = [] then ''/'' else p2))"

text \<open>What \<open>Clean\<close> has written so far starts at the root.\<close>

definition rootedOut :: "string \<Rightarrow> bool" where
  "rootedOut out = (out \<noteq> [] \<and> hd out = slash)"

section \<open>LogEntry\<close>

text \<open>
  The struct without its field \<open>trace\<close>, which no setter reads or writes; the fields
  \<open>name\<close>, \<open>path\<close> and \<open>err\<close> are \<open>log_name\<close>, \<open>log_path\<close> and \<open>log_err\<close> here. The
  zero value of a field (\<open>nil\<close>, the empty string, \<open>false\<close>) is what the setters take for
  "not set".
  \<open>Result\<close> gets the string that \<open>fmt.Sprintf(msg, args...)\<close> has produced, and \<open>Status\<close>
  gets the \<open>String\<close> method of \<open>fuse.Status\<close> as a parameter.
\<close>

record LogEntry =
  log_name :: string
  log_path :: string
  args :: string
  startTime :: int
  log_err :: "error option"
  result :: string
  status :: string
  cacheUsed :: bool
  cacheHit :: bool

definition StartOperation :: "int \<Rightarrow> string \<Rightarrow> string \<Rightarrow> LogEntry" where
  "StartOperation now nm p =
     \<lparr>log_name = nm, log_path = p, args = [], startTime = now, log_err = None,
      result = [], status = [], cacheUsed = False, cacheHit = False\<rparr>"

definition Error :: "LogEntry \<Rightarrow> error option \<Rightarrow> panic + LogEntry" where
  "Error r e =
     (case log_err r of
        Some old \<Rightarrow> Inl (ErrAlreadySet old e)
      | None \<Rightarrow> Inr (r\<lparr>log_err := e\<rparr>))"

definition ErrorMsg :: "LogEntry \<Rightarrow> error option \<Rightarrow> string \<Rightarrow> panic + LogEntry" where
  "ErrorMsg r e msg =
     Error r (Some (case e of
                      Some x \<Rightarrow> Errorf_v (msg @ '': '') x
                    | None \<Rightarrow> Msg (msg @ '': <nil>'')))"

definition Result :: "LogEntry \<Rightarrow> string \<Rightarrow> panic + LogEntry" where
  "Result r formatted =
     (if result r \<noteq> [] then Inl (ResultAlreadySet (result r) formatted)
      else Inr (r\<lparr>result := formatted\<rparr>))"

definition Status :: "('st \<Rightarrow> string) \<Rightarrow> LogEntry \<Rightarrow> 'st \<Rightarrow> panic + ('st \<times> LogEntry)" where
  "Status String r st =
     (if status r \<noteq> [] then Inl (StatusAlreadySet (status r) (String st))
      else Inr (st, r\<lparr>status := String st\<rparr>))"

definition CacheUsed :: "LogEntry \<Rightarrow> bool \<Rightarrow> panic + LogEntry" where
  "CacheUsed r hit =
     (if cacheUsed r then Inl CacheUseAlreadyReported
      else Inr (r\<lparr>cacheUsed := True, cacheHit := hit\<rparr>))"

section \<open>goadbDeviceClient\<close>

text \<open>
  Modelled from the spec: \<open>adb.HasErrCode\<close> is not part of the sources. It tells the
  "device not found" condition from every other failure: it holds of an error of the adb
  library that carries the given code, and of nothing else (not of \<open>nil\<close>).
\<close>

definition HasErrCode :: "error option \<Rightarrow> errcode \<Rightarrow> bool" where
  "HasErrCode e code = (case e of Some (AdbErr c) \<Rightarrow> c = code | _ \<Rightarrow> False)"

text \<open>
  The wrapped \<open>adb.Device\<close>, by what each of its calls returns; the client itself with
  its handler, a procedure on the state \<open>'s\<close> of the rest of the process, or \<open>nil\<close>.
\<close>

record ('r, 'w) adb_Device =
  Device_OpenRead :: "string \<Rightarrow> 'r option \<times> error option"
  Device_OpenWrite :: "string \<Rightarrow> 32 word \<Rightarrow> int \<Rightarrow> 'w option \<times> error option"
  Device_Stat :: "string \<Rightarrow> DirEntry option \<times> error option"
  Device_ListDirEntries :: "string \<Rightarrow> DirEntries option \<times> error option"

record ('r, 'w, 's) goadbDeviceClient =
  Device :: "('r, 'w) adb_Device"
  deviceDisconnectedHandler :: "('s \<Rightarrow> 's) option"

text \<open>
  Modelled from the spec: \<open>DirEntries.ReadAll\<close> is not part of the sources. It iterates
  the decoder to its end; a listing that ends in an error is surfaced as that error, and
  the entries decoded before it are discarded.
\<close>

definition ReadAll :: "DirEntries \<Rightarrow> DirEntry option list \<times> error option" where
  "ReadAll entries =
     (case drive entries of
        (es, final) \<Rightarrow> (case Err final of None \<Rightarrow> (es, None) | Some e \<Rightarrow> ([], Some e)))"

definition handleDeviceNotFound ::
    "('r, 'w, 's) goadbDeviceClient \<Rightarrow> error option \<Rightarrow> 's \<Rightarrow> error option \<times> 's" where
  "handleDeviceNotFound c e w =
     (case deviceDisconnectedHandler c of
        Some h \<Rightarrow> (e, h w)
      | None \<Rightarrow> (e, w))"

definition goadbDeviceClient_OpenRead ::
    "('r, 'w, 's) goadbDeviceClient \<Rightarrow> string \<Rightarrow> 's \<Rightarrow> ('r option \<times> error option) \<times> 's" where
  "goadbDeviceClient_OpenRead c p w =
     (case Device_OpenRead (Device c) p of
        (r, e) \<Rightarrow>
          if HasErrCode e DeviceNotFound then
            (case handleDeviceNotFound c e w of (e1, w1) \<Rightarrow> ((None, e1), w1))
          else ((r, e), w))"

definition goadbDeviceClient_OpenWrite ::
    "('r, 'w, 's) goadbDeviceClient \<Rightarrow> string \<Rightarrow> 32 word \<Rightarrow> int \<Rightarrow> 's
       \<Rightarrow> ('w option \<times> error option) \<times> 's" where
  "goadbDeviceClient_OpenWrite c p mode mtime w = (Device_OpenWrite (Device c) p mode mtime, w)"

definition goadbDeviceClient_Stat ::
    "('r, 'w, 's) goadbDeviceClient \<Rightarrow> string \<Rightarrow> 's \<Rightarrow> (DirEntry option \<times> error option) \<times> 's" where
  "goadbDeviceClient_Stat c p w =
     (case Device_Stat (Device c) p of
        (e, er) \<Rightarrow>
          if HasErrCode er DeviceNotFound then
            (case handleDeviceNotFound c er w of (e1, w1) \<Rightarrow> ((None, e1), w1))
          else ((e, er), w))"

definition goadbDeviceClient_ListDirEntries ::
    "('r, 'w, 's) goadbDeviceClient \<Rightarrow> string \<Rightarrow> 's
       \<Rightarrow> (panic + DirEntry option list \<times> error option) \<times> 's" where
  "goadbDeviceClient_ListDirEntries c p w =
     (case Device_ListDirEntries (Device c) p of
        (entries, er) \<Rightarrow>
          if er \<noteq> None then
            (if HasErrCode er DeviceNotFound then
               (Inr ([], er), snd (handleDeviceNotFound c er w))
             else (Inr ([], er), w))
          else
            (case entries of
               None \<Rightarrow> (Inl NilPointerDereference, w)
             | Some es \<Rightarrow> (Inr (ReadAll es), w)))"

section \<open>CachingDeviceClient\<close>

record CachedDirEntries =
  InOrder :: "DirEntry list"
  ByName :: "string \<rightharpoonup> DirEntry"

definition NewCachedDirEntries :: "DirEntry list \<Rightarrow> CachedDirEntries" where
  "NewCachedDirEntries entries =
     \<lparr>InOrder = entries, ByName = fold (\<lambda>entry m. m(Name entry \<mapsto> entry)) entries Map.empty\<rparr>"

text \<open>
  The calls made on the cache, on the wrapped device client and on a write sink are
  recorded as events, in order. A write sink is given by its identity and by what its
  \<open>Close\<close> returns; the wrapped client, an implementation of the interface
  \<open>DeviceClient\<close>, by what its calls return.
\<close>

record WriteCloser =
  sink_id :: nat
  sink_Close :: "error option"

datatype event =
    CacheGet string
  | CacheRemoveEventually string
  | DeviceStat string
  | DeviceOpenWrite string
  | SinkClose nat

record DeviceClient =
  DeviceClient_Stat :: "string \<Rightarrow> DirEntry option \<times> error option"
  DeviceClient_OpenWrite :: "string \<Rightarrow> 32 word \<Rightarrow> int \<Rightarrow> WriteCloser option \<times> error option"

text \<open>
  Modelled from the spec: \<open>DirEntryCache\<close> is not part of the sources. \<open>Get\<close> answers with
  the listing cached for a key, if there is a fresh one: the field \<open>Cache\<close> is that answer
  for every key. \<open>RemoveEventually\<close> schedules the removal of a key; the call is recorded
  as the event \<open>CacheRemoveEventually\<close>.
\<close>

record CachingDeviceClient =
  DeviceClient :: DeviceClient
  Cache :: "string \<Rightarrow> CachedDirEntries option"

definition CachingDeviceClient_Stat ::
    "CachingDeviceClient \<Rightarrow> string \<Rightarrow> LogEntry \<Rightarrow> event list
       \<Rightarrow> (panic + DirEntry option \<times> error option) \<times> LogEntry \<times> event list" where
  "CachingDeviceClient_Stat c nm log tr =
     (let dir = Dir nm; base = Base nm in
      if dir = base then
        (Inr (DeviceClient_Stat (DeviceClient c) nm), log, tr @ [DeviceStat nm])
      else
        (case Cache c dir of
           Some entries \<Rightarrow>
             (case CacheUsed log True of
                Inl p \<Rightarrow> (Inl p, log, tr @ [CacheGet dir])
              | Inr log1 \<Rightarrow>
                  (case ByName entries base of
                     Some entry \<Rightarrow> (Inr (Some entry, None), log1, tr @ [CacheGet dir])
                   | None \<Rightarrow>
                       (Inr (None,
                             Some (Errorf_w_code (''name '' @ quoted base
                                                  @ '' does not exist in cached directory listing: '')
                                                 FileNoExistError)),
                        log1, tr @ [CacheGet dir])))
         | None \<Rightarrow>
             (case CacheUsed log False of
                Inl p \<Rightarrow> (Inl p, log, tr @ [CacheGet dir])
              | Inr log1 \<Rightarrow>
                  (Inr (DeviceClient_Stat (DeviceClient c) nm), log1,
                   tr @ [CacheGet dir, DeviceStat nm]))))"

record onCloseWriter =
  WriteCloser :: "WriteCloser option"
  onClosed :: "event list \<Rightarrow> event list"

definition CachingDeviceClient_OpenWrite ::
    "CachingDeviceClient \<Rightarrow> string \<Rightarrow> 32 word \<Rightarrow> int \<Rightarrow> LogEntry \<Rightarrow> event list
       \<Rightarrow> (onCloseWriter \<times> error option) \<times> event list" where
  "CachingDeviceClient_OpenWrite c nm perms mtime log tr =
     (case DeviceClient_OpenWrite (DeviceClient c) nm perms mtime of
        (w, er) \<Rightarrow>
          (let onClosed1 = (\<lambda>t. t @ [CacheRemoveEventually (Dir nm)])
           in ((\<lparr>WriteCloser = w, onClosed = onClosed1\<rparr>, er), tr @ [DeviceOpenWrite nm])))"

definition onCloseWriter_Close :: "onCloseWriter \<Rightarrow> event list \<Rightarrow> (panic + error option) \<times> event list" where
  "onCloseWriter_Close w tr =
     (case WriteCloser w of
        None \<Rightarrow> (Inl NilPointerDereference, tr)
      | Some s \<Rightarrow>
          (let er = sink_Close s;
               tr1 = tr @ [SinkClose (sink_id s)];
               tr2 = onClosed w tr1
           in (Inr er, tr2)))"

section \<open>Unmounting on disconnect\<close>

text \<open>
  Each goroutine started by \<open>handleDeviceDisconnected\<close>, and each direct caller of
  \<open>unmountServer\<close>, is a thread with a program counter: \<open>AtValue\<close> before
  \<open>unmounted.Value()\<close>, \<open>AtNilCheck\<close> at the start of \<open>unmountServer\<close>,
  \<open>AtCompareAndSwap\<close> before \<open>unmounted.CompareAndSwap(false, true)\<close>, \<open>AtUnmount\<close> before
  \<open>server.Unmount()\<close>. The process has the server (is it there), the flag, the number of
  calls of \<open>server.Unmount()\<close> made so far, and its threads.
\<close>

datatype pc = AtValue | AtNilCheck | AtCompareAndSwap | AtUnmount | Done | Panicked

record process =
  server :: bool
  unmounted :: bool
  unmounts :: nat
  threads :: "pc list"

definition goto :: "nat \<Rightarrow> pc \<Rightarrow> process \<Rightarrow> process" where
  "goto i p s = s\<lparr>threads := (threads s)[i := p]\<rparr>"

text \<open>
  Modelled from the spec: \<open>fs.AtomicBool\<close> is not part of the sources. Its \<open>Value\<close> and its
  \<open>CompareAndSwap\<close> are atomic: each is one step, and \<open>CompareAndSwap(false, true)\<close> sets
  the flag and succeeds if the flag is false, and fails otherwise. \<open>step i\<close> lets thread \<open>i\<close>
  run to its next point; a schedule is the list of the threads that run, in order. A
  panic stops the process.
\<close>

definition step :: "nat \<Rightarrow> process \<Rightarrow> process" where
  "step i s =
     (if i < length (threads s) \<and> Panicked \<notin> set (threads s) then
        (case threads s ! i of
           AtValue \<Rightarrow> if \<not> unmounted s then goto i AtNilCheck s else goto i Done s
         | AtNilCheck \<Rightarrow> if \<not> server s then goto i Panicked s else goto i AtCompareAndSwap s
         | AtCompareAndSwap \<Rightarrow>
             if unmounted s = False then goto i AtUnmount (s\<lparr>unmounted := True\<rparr>)
             else goto i Done s
         | AtUnmount \<Rightarrow> goto i Done (s\<lparr>unmounts := Suc (unmounts s)\<rparr>)
         | Done \<Rightarrow> s
         | Panicked \<Rightarrow> s)
      else s)"

definition run :: "nat list \<Rightarrow> process \<Rightarrow> process" where
  "run schedule s = fold step schedule s"

text \<open>
  \<open>n\<close> disconnect notifications and \<open>m\<close> direct calls of \<open>unmountServer\<close>, on a server
  that exists and is not unmounted yet.
\<close>

definition start :: "nat \<Rightarrow> nat \<Rightarrow> process" where
  "start n m =
     \<lparr>server = True, unmounted = False, unmounts = 0,
      threads = replicate n AtValue @ replicate m AtNilCheck\<rparr>"

text \<open>
  How far a thread has come, and what every reachable state of the process satisfies.
\<close>

fun rank :: "pc \<Rightarrow> nat" where
  "rank AtValue = 0"
| "rank AtNilCheck = 1"
| "rank AtCompareAndSwap = 2"
| "rank AtUnmount = 3"
| "rank Done = 4"
| "rank Panicked = 4"

definition unmount_inv :: "process \<Rightarrow> bool" where
  "unmount_inv s =
     (server s \<and> Panicked \<notin> set (threads s)
      \<and> unmounts s + count_list (threads s) AtUnmount = (if unmounted s then 1 else 0)
      \<and> (Done \<in> set (threads s) \<longrightarrow> unmounted s))"

section \<open>Example inputs\<close>

definition lostDevice :: "(unit, unit) adb_Device" where
  "lostDevice =
     \<lparr>Device_OpenRead = (\<lambda>p. (None, Some (AdbErr DeviceNotFound))),
      Device_OpenWrite = (\<lambda>p mode mtime. (None, Some (AdbErr DeviceNotFound))),
      Device_Stat = (\<lambda>p. (None, Some (AdbErr DeviceNotFound))),
      Device_ListDirEntries = (\<lambda>p. (None, Some (AdbErr DeviceNotFound)))\<rparr>"

definition countingClient :: "(unit, unit, nat) goadbDeviceClient" where
  "countingClient = \<lparr>Device = lostDevice, deviceDisconnectedHandler = Some Suc\<rparr>"

definition entry_a :: DirEntry where
  "entry_a = \<lparr>Name = ''a'', Mode = 420, Size = 1, ModifiedAt = 0\<rparr>"

definition entry_b :: DirEntry where
  "entry_b = \<lparr>Name = ''b'', Mode = 420, Size = 2, ModifiedAt = 0\<rparr>"

definition entry_d :: DirEntry where
  "entry_d = \<lparr>Name = ''d'', Mode = 493, Size = 0, ModifiedAt = 0\<rparr>"

definition exampleCache :: "string \<Rightarrow> CachedDirEntries option" where
  "exampleCache =
     Map.empty(''/d'' \<mapsto> NewCachedDirEntries [entry_a, entry_b],
               ''/'' \<mapsto> NewCachedDirEntries [entry_d],
               ''a'' \<mapsto> NewCachedDirEntries [entry_a])"

definition failingSink :: WriteCloser where
  "failingSink = \<lparr>sink_id = 7, sink_Close = Some (Msg ''close failed'')\<rparr>"

definition exampleDevice :: DeviceClient where
  "exampleDevice =
     \<lparr>DeviceClient_Stat = (\<lambda>p. (None, Some (Msg ''asked the device''))),
      DeviceClient_OpenWrite = (\<lambda>p perms mtime. (Some failingSink, None))\<rparr>"

definition exampleClient :: CachingDeviceClient where
  "exampleClient = \<lparr>DeviceClient = exampleDevice, Cache = exampleCache\<rparr>"

definition freshLog :: LogEntry where
  "freshLog = StartOperation 0 ''GetAttr'' []"

definition statusName :: "nat \<Rightarrow> string" where
  "statusName n = (if n = 0 then ''OK'' else ''ENOENT'')"

section \<open>Facts about the decoder\<close>

lemma readNext_closes: "readNextDirListEntry s = (r, s1) \<Longrightarrow> closes s1 = closes s"
  unfolding readNextDirListEntry_def read_defs
  by (auto split: prod.splits sum.splits if_splits dest!: scan_closes)

lemma readNext_dent:
  assumes "closes s = 0" and "pending s = dent e @ rest"
  shows "readNextDirListEntry s =
           ((Some e, False, None), s\<lparr>pending := rest, reads := reads s + 5\<rparr>)"
  using assms
  by (simp add: readNextDirListEntry_def read_defs scan_def dent_def Let_def)

lemma readNext_done:
  assumes "closes s = 0" and "pending s = TStr ''DONE'' # rest"
  shows "readNextDirListEntry s =
           ((None, True, None), s\<lparr>pending := rest, reads := reads s + 1\<rparr>)"
  using assms
  by (simp add: readNextDirListEntry_def read_defs scan_def Let_def)

lemma Next_dent:
  assumes "err d = None" and "closes (scanner d) = 0" and "pending (scanner d) = dent e @ rest"
  shows "Next d = (True, d\<lparr>scanner := (scanner d)\<lparr>pending := rest, reads := reads (scanner d) + 5\<rparr>,
                           currentEntry := Some e\<rparr>)"
  using assms by (simp add: Next_def readNext_dent)

lemma Next_done:
  assumes "err d = None" and "closes (scanner d) = 0" and "pending (scanner d) = TStr ''DONE'' # rest"
  shows "Next d = (False, d\<lparr>scanner := (scanner d)\<lparr>pending := rest, reads := reads (scanner d) + 1,
                                                  closes := 1\<rparr>,
                            currentEntry := None\<rparr>)"
  using assms by (simp add: Next_def readNext_done Close_def scanner_Close_def)

lemma drive_listing:
  assumes "err d = None" and "closes (scanner d) = 0" and "pending (scanner d) = listing es"
  shows "fst (drive d) = map Some es \<and> err (snd (drive d)) = None
         \<and> closes (scanner (snd (drive d))) = 1 \<and> pending (scanner (snd (drive d))) = []"
  using assms
proof (induction es arbitrary: d)
  case Nil
  then have "Next d = (False, d\<lparr>scanner := (scanner d)\<lparr>pending := [], reads := reads (scanner d) + 1,
                                                  closes := 1\<rparr>, currentEntry := None\<rparr>)"
    by (intro Next_done) (simp_all add: listing_def)
  then have "drive d = ([], d\<lparr>scanner := (scanner d)\<lparr>pending := [], reads := reads (scanner d) + 1,
                                                  closes := 1\<rparr>, currentEntry := None\<rparr>)"
    by (subst drive.simps) simp
  with Nil.prems show ?case by simp
next
  case (Cons e es)
  let ?d1 = "d\<lparr>scanner := (scanner d)\<lparr>pending := listing es, reads := reads (scanner d) + 5\<rparr>,
                           currentEntry := Some e\<rparr>"
  have n: "Next d = (True, ?d1)"
    using Cons.prems by (intro Next_dent) (simp_all add: listing_def)
  have ih: "fst (drive ?d1) = map Some es \<and> err (snd (drive ?d1)) = None
         \<and> closes (scanner (snd (drive ?d1))) = 1 \<and> pending (scanner (snd (drive ?d1))) = []"
    using Cons.prems by (intro Cons.IH) simp_all
  have "drive d = (Entry ?d1 # fst (drive ?d1), snd (drive ?d1))"
    by (subst drive.simps) (simp add: n split: prod.splits)
  with ih show ?case by (simp add: Entry_def)
qed

lemma Next_sticky: "err d \<noteq> None \<Longrightarrow> Next d = (False, d)"
  by (simp add: Next_def)

lemma Next_times_sticky: "err d \<noteq> None \<Longrightarrow> Next_times k d = (replicate k False, d)"
  by (induction k) (simp_all add: Next_sticky)

lemma readNext_badtag:
  assumes "closes s = 0" and "pending s = TStr t # rest" and "t \<noteq> ''DONE''" and "t \<noteq> ''DENT''"
  shows "readNextDirListEntry s =
           ((None, False, Some (unexpectedId t)), s\<lparr>pending := rest, reads := reads s + 1\<rparr>)"
  using assms
  by (simp add: readNextDirListEntry_def read_defs scan_def Let_def unexpectedId_def)

lemma Next_badtag:
  assumes "err d = None" and "closes (scanner d) = 0" and "pending (scanner d) = TStr t # rest"
    and "t \<noteq> ''DONE''" and "t \<noteq> ''DENT''"
  shows "Next d = (False, d\<lparr>scanner := (scanner d)\<lparr>pending := rest, reads := reads (scanner d) + 1,
                                                  closes := 1\<rparr>,
                            err := Some (unexpectedId t)\<rparr>)"
  using assms by (simp add: Next_def readNext_badtag Close_def scanner_Close_def)

lemma drive_badtag:
  assumes "err d = None" and "closes (scanner d) = 0"
    and "pending (scanner d) = concat (map dent es) @ TStr t # rest"
    and "t \<noteq> ''DONE''" and "t \<noteq> ''DENT''"
  shows "fst (drive d) = map Some es \<and> err (snd (drive d)) = Some (unexpectedId t)"
  using assms
proof (induction es arbitrary: d)
  case Nil
  then have "Next d = (False, d\<lparr>scanner := (scanner d)\<lparr>pending := rest, reads := reads (scanner d) + 1,
                                                  closes := 1\<rparr>, err := Some (unexpectedId t)\<rparr>)"
    by (intro Next_badtag) simp_all
  then have "drive d = ([], d\<lparr>scanner := (scanner d)\<lparr>pending := rest, reads := reads (scanner d) + 1,
                                                  closes := 1\<rparr>, err := Some (unexpectedId t)\<rparr>)"
    by (subst drive.simps) simp
  then show ?case by simp
next
  case (Cons e es)
  let ?d1 = "d\<lparr>scanner := (scanner d)\<lparr>pending := concat (map dent es) @ TStr t # rest,
                                          reads := reads (scanner d) + 5\<rparr>,
                           currentEntry := Some e\<rparr>"
  have n: "Next d = (True, ?d1)"
    using Cons.prems by (intro Next_dent) simp_all
  have ih: "fst (drive ?d1) = map Some es \<and> err (snd (drive ?d1)) = Some (unexpectedId t)"
    using Cons.prems by (intro Cons.IH) simp_all
  have "drive d = (Entry ?d1 # fst (drive ?d1), snd (drive ?d1))"
    by (subst drive.simps) (simp add: n split: prod.splits)
  with ih show ?case by (simp add: Entry_def)
qed

lemma Next_True_keeps:
  "Next d = (True, d1) \<Longrightarrow> err d1 = None \<and> closes (scanner d1) = closes (scanner d)"
  unfolding Next_def Let_def
  by (auto split: prod.splits if_splits simp: Close_def dest: readNext_closes)

lemma Next_False_closes:
  "Next d = (False, d1) \<Longrightarrow> err d = None \<Longrightarrow> closes (scanner d1) = Suc (closes (scanner d))"
  unfolding Next_def Let_def
  by (auto split: prod.splits if_splits simp: Close_def scanner_Close_def dest: readNext_closes)

lemma drive_closes:
  "err d = None \<Longrightarrow> closes (scanner (snd (drive d))) = Suc (closes (scanner d))"
proof (induction d rule: drive.induct)
  case (1 entries)
  obtain ok entries1 where n: "Next entries = (ok, entries1)" by (cases "Next entries")
  show ?case
  proof (cases ok)
    case True
    with n have k: "err entries1 = None \<and> closes (scanner entries1) = closes (scanner entries)"
      using Next_True_keeps [of entries entries1] by simp
    have "closes (scanner (snd (drive entries1))) = Suc (closes (scanner entries1))"
      using "1.IH" [OF n [symmetric] True] k by simp
    moreover have "snd (drive entries) = snd (drive entries1)"
      by (subst drive.simps) (simp add: n True split: prod.splits)
    ultimately show ?thesis using k by simp
  next
    case False
    with n have "drive entries = ([], entries1)"
      by (subst drive.simps) simp
    with n False "1.prems" show ?thesis
      using Next_False_closes [of entries entries1] by simp
  qed
qed

section \<open>Facts about paths\<close>

lemma backtrack_le: "backtrack out dotdot w \<le> w"
proof (induction out dotdot w rule: backtrack.induct)
  case (1 out dotdot w)
  show ?case
  proof (cases "dotdot < w \<and> out ! w \<noteq> slash")
    case True
    then have "backtrack out dotdot w = backtrack out dotdot (w - 1)"
      by (subst backtrack.simps) simp
    with "1.IH" [OF True] show ?thesis by simp
  next
    case False
    then have "backtrack out dotdot w = w" by (subst backtrack.simps) auto
    then show ?thesis by simp
  qed
qed

lemma dotdotElem_length:
  assumes "length out \<le> b" and "length out = b \<Longrightarrow> \<not> needSep rooted out"
  shows "length (fst (dotdotElem rooted out dotdot)) \<le> b + 2"
proof -
  have "\<not> rooted \<Longrightarrow> 0 < length out \<Longrightarrow> length out < b"
    using assms by (cases "length out = b") (auto simp: needSep_def)
  then show ?thesis
    using assms(1) backtrack_le [of out dotdot "length out - 1"]
    by (auto simp: dotdotElem_def Let_def)
qed

lemma realElem_length:
  assumes "length out \<le> b" and "length out = b \<Longrightarrow> \<not> needSep rooted out"
  shows "length (realElem rooted out p) \<le> b + length (takeWhile (\<lambda>x. x \<noteq> slash) p)"
proof -
  have "needSep rooted out \<Longrightarrow> length out < b"
    using assms by (cases "length out = b") auto
  then show ?thesis
    using assms(1) by (auto simp: realElem_def needSep_def)
qed

lemma dropWhile_boundary:
  "dropWhile (\<lambda>x. x \<noteq> slash) p = [] \<or> hd (dropWhile (\<lambda>x. x \<noteq> slash) p) = slash"
  using hd_dropWhile [of "\<lambda>x. x \<noteq> slash" p] by auto

lemma dropWhile_last:
  "p \<noteq> [] \<Longrightarrow> last p = slash \<Longrightarrow>
     dropWhile (\<lambda>x. x \<noteq> slash) p \<noteq> [] \<and> last (dropWhile (\<lambda>x. x \<noteq> slash) p) = slash"
  by (induction p) (auto split: if_splits)

lemma take_drop_While_length:
  "length (takeWhile P p) + length (dropWhile P p) = length p"
  by (induction p) auto

lemma clean_loop_length:
  assumes "length out \<le> b"
    and "length out = b \<Longrightarrow> p = [] \<or> hd p = slash \<or> \<not> needSep rooted out"
  shows "length (clean_loop rooted p out dotdot) \<le> b + length p
         \<and> (p \<noteq> [] \<and> last p = slash \<longrightarrow> length (clean_loop rooted p out dotdot) < b + length p)"
  using assms
proof (induction rooted p out dotdot arbitrary: b rule: clean_loop.induct)
  case (1 rooted out dotdot)
  then show ?case by (simp add: clean_loop.simps(1))
next
  case (2 rooted c cs out dotdot)
  let ?P = "\<lambda>p out dotdot b. length (clean_loop rooted p out dotdot) \<le> b + length p
         \<and> (p \<noteq> [] \<and> last p = slash \<longrightarrow> length (clean_loop rooted p out dotdot) < b + length p)"
  consider (sl) "c = slash"
    | (d1) "c \<noteq> slash" "c = dot \<and> (cs = [] \<or> hd cs = slash)"
    | (d2) "c \<noteq> slash" "\<not> (c = dot \<and> (cs = [] \<or> hd cs = slash))"
           "c = dot \<and> hd cs = dot \<and> (tl cs = [] \<or> hd (tl cs) = slash)"
    | (el) "c \<noteq> slash" "\<not> (c = dot \<and> (cs = [] \<or> hd cs = slash))"
           "\<not> (c = dot \<and> hd cs = dot \<and> (tl cs = [] \<or> hd (tl cs) = slash))"
    by blast
  then show ?case
  proof cases
    case sl
    have ih: "?P cs out dotdot (Suc b)"
      using "2.IH"(1) [OF sl, of "Suc b"] "2.prems"(1) by simp
    have eq: "clean_loop rooted (c # cs) out dotdot = clean_loop rooted cs out dotdot"
      using sl by (subst clean_loop.simps(2)) simp
    show ?thesis
    proof (cases "cs = []")
      case True
      then show ?thesis using eq "2.prems"(1) sl by (simp add: clean_loop.simps(1))
    next
      case False
      then show ?thesis using eq ih by simp
    qed
  next
    case d1
    have ih: "?P cs out dotdot (Suc b)"
      using "2.IH"(2) [OF d1, of "Suc b"] "2.prems"(1) by simp
    have eq: "clean_loop rooted (c # cs) out dotdot = clean_loop rooted cs out dotdot"
      using d1 by (subst clean_loop.simps(2)) simp
    show ?thesis
    proof (cases "cs = []")
      case True
      then show ?thesis using eq "2.prems"(1) d1 by (simp add: clean_loop.simps(1))
    next
      case False
      then show ?thesis using eq ih by simp
    qed
  next
    case d2
    let ?o = "fst (dotdotElem rooted out dotdot)" and ?d = "snd (dotdotElem rooted out dotdot)"
    from d2 have cs: "cs \<noteq> []" and c: "c = dot" by auto
    have ns: "length out = b \<Longrightarrow> \<not> needSep rooted out"
      using "2.prems"(2) d2(1) by auto
    have len: "length ?o \<le> b + 2"
      using dotdotElem_length [OF "2.prems"(1) ns, of dotdot] .
    have ih: "?P (tl cs) ?o ?d (b + 2)"
      using "2.IH"(3) [OF d2, of "b + 2"] len d2(3) by blast
    have eq: "clean_loop rooted (c # cs) out dotdot = clean_loop rooted (tl cs) ?o ?d"
      using d2 by (subst clean_loop.simps(2)) simp
    have l: "length (c # cs) = 2 + length (tl cs)" using cs by (cases cs) auto
    show ?thesis
    proof (cases "tl cs = []")
      case True
      then have "last (c # cs) = dot" using cs d2(3) by (cases cs) auto
      then have "last (c # cs) \<noteq> slash" by (simp add: dot_def slash_def)
      moreover have "length (clean_loop rooted (tl cs) ?o ?d) \<le> b + length (c # cs)"
        using ih l by linarith
      ultimately show ?thesis unfolding eq by blast
    next
      case False
      then have "last (c # cs) = last (tl cs)" using cs by (cases cs) auto
      moreover have "length (clean_loop rooted (tl cs) ?o ?d) \<le> b + length (c # cs)"
        using ih l by linarith
      moreover have "last (tl cs) = slash \<Longrightarrow> length (clean_loop rooted (tl cs) ?o ?d) < b + length (c # cs)"
        using ih l False by linarith
      ultimately show ?thesis unfolding eq by metis
    qed
  next
    case el
    let ?t = "takeWhile (\<lambda>x. x \<noteq> slash) (c # cs)" and ?r = "dropWhile (\<lambda>x. x \<noteq> slash) (c # cs)"
    let ?o = "realElem rooted out (c # cs)"
    have ns: "length out = b \<Longrightarrow> \<not> needSep rooted out"
      using "2.prems"(2) el(1) by auto
    have len: "length ?o \<le> b + length ?t"
      using realElem_length [OF "2.prems"(1) ns, of "c # cs"] .
    have ih: "?P ?r ?o dotdot (b + length ?t)"
      using "2.IH"(4) [OF el, of "b + length ?t"] len dropWhile_boundary [of "c # cs"] by blast
    have eq: "clean_loop rooted (c # cs) out dotdot = clean_loop rooted ?r ?o dotdot"
      using el by (subst clean_loop.simps(2)) (simp only: if_False)
    have l: "length ?t + length ?r = length (c # cs)"
      by (rule take_drop_While_length)
    have "length (clean_loop rooted ?r ?o dotdot) \<le> b + length (c # cs)"
      using ih l by linarith
    moreover have "last (c # cs) = slash \<Longrightarrow> length (clean_loop rooted ?r ?o dotdot) < b + length (c # cs)"
    proof -
      assume "last (c # cs) = slash"
      then have "?r \<noteq> [] \<and> last ?r = slash"
        using dropWhile_last [of "c # cs"] by simp
      with ih l show ?thesis by linarith
    qed
    ultimately show ?thesis unfolding eq by blast
  qed
qed

lemma Clean_length: "p \<noteq> [] \<Longrightarrow> length (Clean p) \<le> length p"
proof -
  assume ne: "p \<noteq> []"
  then obtain c cs where p: "p = c # cs" by (cases p) auto
  show ?thesis
  proof (cases "c = slash")
    case True
    have "length (clean_loop True cs [slash] 1) \<le> 1 + length cs"
      using clean_loop_length [of "[slash]" 1 cs True 1] by (simp add: needSep_def)
    then show ?thesis using p True by (simp add: Clean_def Let_def)
  next
    case False
    have "length (clean_loop False p [] 0) \<le> 0 + length p"
      using clean_loop_length [of "[]" 0 p False 0] by (simp add: needSep_def)
    then show ?thesis using p False by (simp add: Clean_def Let_def)
  qed
qed

lemma Clean_length_trailing:
  assumes "p \<noteq> []" and "last p = slash" and "p \<noteq> [slash]"
  shows "length (Clean p) < length p"
proof -
  obtain c cs where p: "p = c # cs" using assms(1) by (cases p) auto
  show ?thesis
  proof (cases "c = slash")
    case True
    with assms p have cs: "cs \<noteq> []" "last cs = slash" by auto
    have "length (clean_loop True cs [slash] 1) < 1 + length cs"
      using clean_loop_length [of "[slash]" 1 cs True 1] cs by (simp add: needSep_def)
    then show ?thesis using p True cs by (cases cs) (auto simp: Clean_def Let_def)
  next
    case False
    have "length (clean_loop False p [] 0) < 0 + length p"
      using clean_loop_length [of "[]" 0 p False 0] assms by (simp add: needSep_def)
    moreover have "2 \<le> length p" using assms p False by (cases cs) auto
    ultimately show ?thesis using p False by (auto simp: Clean_def Let_def)
  qed
qed

lemma LastIndexByte_Some:
  "LastIndexByte p c = Some i \<Longrightarrow> i < length p \<and> p ! i = c"
  by (induction p arbitrary: i) (auto split: option.splits if_splits)

lemma Clean_root: "Clean [slash] = [slash]"
  by (simp add: Clean_def clean_loop.simps(1))

lemma Dir_fixpoint:
  assumes "Dir p = p"
  shows "p = ''.'' \<or> p = ''/''"
proof (cases "LastIndexByte p slash")
  case None
  then have "Dir p = ''.''" by (simp add: Dir_def Split_def Clean_def)
  with assms show ?thesis by simp
next
  case (Some i)
  let ?d = "take (i + 1) p"
  from Some have i: "i < length p" "p ! i = slash"
    using LastIndexByte_Some by blast+
  then have d: "?d \<noteq> []" "last ?d = slash" "length ?d \<le> length p"
    by (simp_all add: take_Suc_conv_app_nth)
  have dir: "Dir p = Clean ?d" using Some by (simp add: Dir_def Split_def)
  show ?thesis
  proof (cases "?d = [slash]")
    case True
    then have "Dir p = [slash]" using dir Clean_root by simp
    with assms show ?thesis by (simp add: slash_def)
  next
    case False
    then have "length (Clean ?d) < length ?d"
      using Clean_length_trailing d by blast
    with d(3) dir assms show ?thesis by simp
  qed
qed

lemma root_Dir_Base:
  assumes "Dir p = p"
  shows "Dir p = Base p"
proof -
  have a: "Base ''.'' = ''.''"
    by (subst Base_def, subst stripSlashes.simps) (simp add: slash_def)
  have "stripSlashes ''/'' = []"
    by (subst stripSlashes.simps, subst stripSlashes.simps) (simp add: slash_def)
  then have b: "Base ''/'' = ''/''"
    by (simp add: Base_def)
  from Dir_fixpoint [OF assms] a b assms show ?thesis by auto
qed

text \<open>On an absolute path, \<open>Dir\<close> and \<open>Base\<close> agree only when the path is made of slashes.\<close>

lemma LastIndexByte_None: "LastIndexByte p c = None \<longleftrightarrow> c \<notin> set p"
  by (induction p) (auto split: option.splits)

lemma LastIndexByte_after:
  "LastIndexByte p c = Some i \<Longrightarrow> c \<notin> set (drop (Suc i) p)"
  by (induction p arbitrary: i) (auto split: option.splits if_splits simp: LastIndexByte_None)

lemma backtrack_ge: "dotdot \<le> w \<Longrightarrow> dotdot \<le> backtrack out dotdot w"
proof (induction out dotdot w rule: backtrack.induct)
  case (1 out dotdot w)
  show ?case
  proof (cases "dotdot < w \<and> out ! w \<noteq> slash")
    case True
    then have "backtrack out dotdot w = backtrack out dotdot (w - 1)"
      by (subst backtrack.simps) simp
    moreover have "dotdot \<le> w - 1" using True by auto
    then have "dotdot \<le> backtrack out dotdot (w - 1)"
      using "1.IH" [OF True] by simp
    ultimately show ?thesis by simp
  next
    case False
    then have "backtrack out dotdot w = w" by (subst backtrack.simps) auto
    with "1.prems" show ?thesis by simp
  qed
qed

lemma dotdotElem_rooted:
  assumes "rootedOut out"
  shows "rootedOut (fst (dotdotElem True out 1)) \<and> snd (dotdotElem True out 1) = 1"
proof (cases "1 < length out")
  case True
  have "1 \<le> backtrack out 1 (length out - 1)"
    using True by (intro backtrack_ge) simp
  then show ?thesis
    using assms True by (cases out) (auto simp: dotdotElem_def rootedOut_def take_Cons')
next
  case False
  then show ?thesis using assms by (simp add: dotdotElem_def)
qed

lemma realElem_rooted: "rootedOut out \<Longrightarrow> rootedOut (realElem True out p)"
  by (auto simp: realElem_def rootedOut_def)

lemma clean_loop_rooted:
  "rooted \<Longrightarrow> dotdot = 1 \<Longrightarrow> rootedOut out \<Longrightarrow> rootedOut (clean_loop rooted p out dotdot)"
proof (induction rooted p out dotdot rule: clean_loop.induct)
  case (1 rooted out dotdot)
  then show ?case by (simp add: clean_loop.simps(1))
next
  case (2 rooted c cs out dotdot)
  note d = dotdotElem_rooted [OF "2.prems"(3)]
  note r = realElem_rooted [OF "2.prems"(3), of "c # cs"]
  show ?case
    using "2.IH" "2.prems" d r
    by (subst clean_loop.simps(2)) (simp del: dropWhile.simps takeWhile.simps)
qed

lemma Clean_rooted: "p \<noteq> [] \<Longrightarrow> hd p = slash \<Longrightarrow> rootedOut (Clean p)"
  using clean_loop_rooted [of True 1 "[slash]" "tl p"]
  by (auto simp: Clean_def Let_def rootedOut_def)

lemma Dir_rooted:
  assumes "p \<noteq> []" and "hd p = slash"
  shows "rootedOut (Dir p)"
proof -
  have "slash \<in> set p" using assms by (cases p) auto
  then obtain i where i: "LastIndexByte p slash = Some i"
    using LastIndexByte_None [of p slash] by (cases "LastIndexByte p slash") auto
  have "take (i + 1) p \<noteq> [] \<and> hd (take (i + 1) p) = slash"
    using assms by (cases p) auto
  then show ?thesis
    using i Clean_rooted [of "take (i + 1) p"] by (simp add: Dir_def Split_def)
qed

lemma stripSlashes_all: "set p \<subseteq> {slash} \<Longrightarrow> stripSlashes p = []"
proof (induction p rule: stripSlashes.induct)
  case (1 p)
  show ?case
  proof (cases "p = []")
    case True
    then show ?thesis by (subst stripSlashes.simps) simp
  next
    case False
    then have "last p \<in> set p" by (rule last_in_set)
    then have "last p = slash"
      using "1.prems" by blast
    then have l: "p ! (length p - 1) = slash"
      using False last_conv_nth [of p] by simp
    have "set (take (length p - 1) p) \<subseteq> {slash}"
      using "1.prems" set_take_subset [of "length p - 1" p] by blast
    then have "stripSlashes (take (length p - 1) p) = []"
      using "1.IH" False l by simp
    then show ?thesis using False l by (subst stripSlashes.simps) simp
  qed
qed

lemma stripSlashes_last:
  "stripSlashes p = [] \<or> last (stripSlashes p) \<noteq> slash"
proof (induction p rule: stripSlashes.induct)
  case (1 p)
  show ?case
  proof (cases "0 < length p \<and> p ! (length p - 1) = slash")
    case True
    then have "stripSlashes p = stripSlashes (take (length p - 1) p)"
      by (subst stripSlashes.simps) simp
    then show ?thesis using "1.IH" [OF True] by simp
  next
    case False
    then have "stripSlashes p = p" by (subst stripSlashes.simps) auto
    then show ?thesis using False by (cases "p = []") (auto simp: last_conv_nth)
  qed
qed

lemma stripSlashes_empty: "stripSlashes p = [] \<Longrightarrow> set p \<subseteq> {slash}"
proof (induction p rule: stripSlashes.induct)
  case (1 p)
  show ?case
  proof (cases "0 < length p \<and> p ! (length p - 1) = slash")
    case True
    then have e: "stripSlashes p = stripSlashes (take (length p - 1) p)"
      by (subst stripSlashes.simps) simp
    then have "set (take (length p - 1) p) \<subseteq> {slash}"
      using "1.IH" [OF True] "1.prems" by simp
    moreover have "p = take (length p - 1) p @ [slash]"
      using True by (metis append_butlast_last_id butlast_conv_take last_conv_nth length_greater_0_conv)
    ultimately show ?thesis by (metis Un_insert_right insert_subset list.simps(15) set_append sup_bot.right_neutral singletonI subset_trans subset_refl empty_set)
  next
    case False
    then have "stripSlashes p = p" by (subst stripSlashes.simps) auto
    then show ?thesis using "1.prems" by simp
  qed
qed

lemma Base_slash:
  assumes "slash \<in> set (Base p)"
  shows "Base p = [slash]"
proof (cases "p = []")
  case True
  then show ?thesis using assms by (simp add: Base_def slash_def)
next
  case False
  let ?p1 = "stripSlashes p"
  show ?thesis
  proof (cases "LastIndexByte ?p1 slash")
    case None
    then have n: "slash \<notin> set ?p1" by (simp add: LastIndexByte_None)
    show ?thesis
      using assms False None n by (auto simp: Base_def Let_def slash_def split: if_splits)
  next
    case (Some i)
    then have n: "slash \<notin> set (drop (Suc i) ?p1)" by (rule LastIndexByte_after)
    show ?thesis
      using assms False Some n by (auto simp: Base_def Let_def slash_def split: if_splits)
  qed
qed

lemma Base_root_iff: "Base p = [slash] \<longleftrightarrow> p \<noteq> [] \<and> set p \<subseteq> {slash}"
proof
  assume b: "Base p = [slash]"
  have ne: "p \<noteq> []" using b by (auto simp: Base_def slash_def)
  let ?p1 = "stripSlashes p"
  have "?p1 = []"
  proof (cases "LastIndexByte ?p1 slash")
    case None
    then have n: "slash \<notin> set ?p1" by (simp add: LastIndexByte_None)
    show ?thesis
      using b ne None n by (auto simp: Base_def Let_def slash_def split: if_splits)
  next
    case (Some i)
    then have n: "slash \<notin> set (drop (Suc i) ?p1)" by (rule LastIndexByte_after)
    have i: "i < length ?p1" "?p1 ! i = slash" using LastIndexByte_Some [OF Some] by simp_all
    have "drop (Suc i) ?p1 = []"
      using b ne Some n by (auto simp: Base_def Let_def slash_def split: if_splits)
    then have "i = length ?p1 - 1" using i by simp
    moreover have "?p1 \<noteq> []" using i by auto
    ultimately have "last ?p1 = slash" using i last_conv_nth [of ?p1] by simp
    then show ?thesis using stripSlashes_last [of p] by simp
  qed
  then show "p \<noteq> [] \<and> set p \<subseteq> {slash}" using ne stripSlashes_empty by simp
next
  assume "p \<noteq> [] \<and> set p \<subseteq> {slash}"
  then show "Base p = [slash]"
    by (simp add: Base_def stripSlashes_all slash_def)
qed

lemma clean_loop_slashes: "set cs \<subseteq> {slash} \<Longrightarrow> clean_loop rooted cs out dotdot = out"
  by (induction cs) (simp_all add: clean_loop.simps)

lemma Dir_slashes:
  assumes "p \<noteq> []" and "set p \<subseteq> {slash}"
  shows "Dir p = [slash]"
proof -
  have "slash \<in> set p" using assms by (cases p) auto
  then obtain i where i: "LastIndexByte p slash = Some i"
    using LastIndexByte_None [of p slash] by (cases "LastIndexByte p slash") auto
  let ?d = "take (i + 1) p"
  have d: "?d \<noteq> []" "hd ?d = slash" "set (tl ?d) \<subseteq> {slash}"
    using assms by (cases p; auto dest: in_set_takeD)+
  have "Clean ?d = [slash]"
    using d clean_loop_slashes [of "tl ?d" True "[slash]" 1] by (simp add: Clean_def)
  then show ?thesis using i by (simp add: Dir_def Split_def)
qed

lemma absolute_Dir_Base:
  assumes "p \<noteq> []" and "hd p = slash"
  shows "(Dir p = Base p) = (set p \<subseteq> {slash})"
proof
  assume e: "Dir p = Base p"
  have "rootedOut (Dir p)" using assms by (rule Dir_rooted)
  then have "slash \<in> set (Base p)" using e by (cases "Base p") (auto simp: rootedOut_def)
  then have "Base p = [slash]" by (rule Base_slash)
  then show "set p \<subseteq> {slash}" using Base_root_iff by blast
next
  assume "set p \<subseteq> {slash}"
  then show "Dir p = Base p"
    using assms(1) Dir_slashes Base_root_iff by metis
qed

lemma ex_paths:
  "Dir ''/'' = ''/''" "Base ''/'' = ''/''"
  "Dir ''a/a'' = ''a''" "Base ''a/a'' = ''a''"
  "Dir ''/d/a'' = ''/d''" "Base ''/d/a'' = ''a''"
  "Dir ''/d/c'' = ''/d''" "Base ''/d/c'' = ''c''"
  by code_simp+

section \<open>Facts about the device client\<close>

lemma disconnect_handler_called:
  assumes "deviceDisconnectedHandler c = Some h"
  shows "Device_OpenRead (Device c) p = (r, er) \<Longrightarrow> HasErrCode er DeviceNotFound \<Longrightarrow>
           goadbDeviceClient_OpenRead c p w = ((None, er), h w)"
    and "Device_Stat (Device c) p = (e, er) \<Longrightarrow> HasErrCode er DeviceNotFound \<Longrightarrow>
           goadbDeviceClient_Stat c p w = ((None, er), h w)"
    and "Device_ListDirEntries (Device c) p = (es, er) \<Longrightarrow> HasErrCode er DeviceNotFound \<Longrightarrow>
           goadbDeviceClient_ListDirEntries c p w = (Inr ([], er), h w)"
  using assms
  by (auto simp: goadbDeviceClient_OpenRead_def goadbDeviceClient_Stat_def
      goadbDeviceClient_ListDirEntries_def handleDeviceNotFound_def HasErrCode_def
      split: option.splits error.splits)

lemma OpenWrite_never_calls_handler:
  "snd (goadbDeviceClient_OpenWrite c p mode mtime w) = w"
  by (simp add: goadbDeviceClient_OpenWrite_def)

section \<open>Facts about the unmount guard\<close>

lemma count_list_update:
  "i < length xs \<Longrightarrow>
     count_list (xs[i := y]) z + (if xs ! i = z then 1 else 0)
       = count_list xs z + (if y = z then 1 else 0)"
proof (induction xs arbitrary: i)
  case Nil
  then show ?case by simp
next
  case (Cons x xs)
  show ?case
  proof (cases i)
    case 0
    then show ?thesis by simp
  next
    case (Suc k)
    then have "k < length xs" using Cons.prems by simp
    from Cons.IH [OF this] Suc show ?thesis by (auto split: if_splits)
  qed
qed

lemma set_update_cases:
  "z \<in> set (xs[i := y]) \<Longrightarrow> z = y \<or> z \<in> set xs"
  using set_update_subset_insert [of xs i y] by auto

lemma nth_mem_set: "i < length xs \<Longrightarrow> xs ! i = z \<Longrightarrow> z \<in> set xs"
  by auto

lemma step_inv:
  assumes "unmount_inv s"
  shows "unmount_inv (step i s)"
proof (cases "i < length (threads s) \<and> Panicked \<notin> set (threads s)")
  case False
  then have "step i s = s" unfolding step_def by (rule if_not_P)
  then show ?thesis using assms by simp
next
  case True
  then have i: "i < length (threads s)" by simp
  note c = count_list_update [OF i, of _ AtUnmount]
  show ?thesis
  proof (cases "threads s ! i")
    case AtValue
    then show ?thesis
      using assms True c [of AtNilCheck] c [of Done]
      by (auto simp: step_def goto_def unmount_inv_def dest!: set_update_cases split: if_splits)
  next
    case AtNilCheck
    then show ?thesis
      using assms True c [of AtCompareAndSwap]
      by (auto simp: step_def goto_def unmount_inv_def dest!: set_update_cases split: if_splits)
  next
    case AtCompareAndSwap
    then show ?thesis
      using assms True c [of AtUnmount] c [of Done]
      by (auto simp: step_def goto_def unmount_inv_def dest!: set_update_cases split: if_splits)
  next
    case AtUnmount
    then have "AtUnmount \<in> set (threads s)" using i nth_mem_set by metis
    then have "0 < count_list (threads s) AtUnmount"
      using count_list_0_iff [of "threads s" AtUnmount] by auto
    then have u: "unmounted s" using assms by (auto simp: unmount_inv_def split: if_splits)
    show ?thesis
      using assms True c [of Done] AtUnmount u
      by (auto simp: step_def goto_def unmount_inv_def dest!: set_update_cases split: if_splits)
  next
    case Done
    then show ?thesis using assms True by (simp add: step_def)
  next
    case Panicked
    then show ?thesis using assms True by (simp add: step_def)
  qed
qed

lemma run_inv: "unmount_inv s \<Longrightarrow> unmount_inv (run schedule s)"
  unfolding run_def by (induction schedule arbitrary: s) (simp_all add: step_inv)

lemma start_inv: "unmount_inv (start n m)"
  by (auto simp: unmount_inv_def start_def count_list_0_iff)

lemma step_length: "length (threads (step i s)) = length (threads s)"
  by (simp add: step_def goto_def split: pc.splits)

lemma step_rank:
  assumes "unmount_inv s" and "j < length (threads s)"
  shows "min 4 (rank (threads s ! j) + (if i = j then 1 else 0)) \<le> rank (threads (step i s) ! j)"
proof (cases "i = j")
  case True
  then show ?thesis
    using assms by (cases "threads s ! j") (auto simp: step_def goto_def unmount_inv_def)
next
  case False
  then show ?thesis
    using assms by (auto simp: step_def goto_def split: pc.splits)
qed

lemma run_rank:
  assumes "unmount_inv s" and "j < length (threads s)"
  shows "min 4 (rank (threads s ! j) + count_list schedule j) \<le> rank (threads (run schedule s) ! j)
         \<and> length (threads (run schedule s)) = length (threads s)"
  using assms
proof (induction schedule arbitrary: s)
  case Nil
  then show ?case by (simp add: run_def)
next
  case (Cons i schedule)
  have inv: "unmount_inv (step i s)" using Cons.prems(1) by (rule step_inv)
  have len: "j < length (threads (step i s))" using Cons.prems(2) by (simp add: step_length)
  have r: "min 4 (rank (threads s ! j) + (if i = j then 1 else 0)) \<le> rank (threads (step i s) ! j)"
    using Cons.prems by (rule step_rank)
  have ih: "min 4 (rank (threads (step i s) ! j) + count_list schedule j)
              \<le> rank (threads (run schedule (step i s)) ! j)
            \<and> length (threads (run schedule (step i s))) = length (threads (step i s))"
    using Cons.IH [OF inv len] .
  have e: "run (i # schedule) s = run schedule (step i s)" by (simp add: run_def)
  show ?case unfolding e using ih r by (auto simp: step_length)
qed

lemma rank_4: "rank p = 4 \<Longrightarrow> p = Done \<or> p = Panicked"
  by (cases p) auto

lemma rank_le_4: "rank p \<le> 4"
  by (cases p) auto

section \<open>The claims\<close>

text \<open>
  Claim C1. For every list \<open>es\<close> of directory entries, on the stream made of one well-formed
  \<open>DENT\<close> record per entry followed by one \<open>DONE\<close>, calling \<open>Next\<close> until it returns
  false yields exactly the entries \<open>es\<close>, in order and field by field, and \<open>Err\<close> is
  \<open>nil\<close> afterwards. The loop is total: \<open>drive\<close> is defined with its termination proof.
\<close>

theorem decoder_yields_listing:
  "fst (drive (newDirEntries (listing es))) = map Some es
   \<and> Err (snd (drive (newDirEntries (listing es)))) = None"
  using drive_listing [of "newDirEntries (listing es)" es]
  by (simp add: newDirEntries_def newScanner_def Err_def)

text \<open>
  Claim C2. The code at the input where the claim fails: on the stream holding \<open>DONE\<close>
  alone, the first \<open>Next\<close> returns false after one read and one \<open>Close\<close>, with \<open>Err\<close>
  still \<open>nil\<close>; the second \<open>Next\<close> is not stopped by the check of \<open>err\<close>, reads from the
  scanner again (\<open>reads\<close> goes from 1 to 2), records the error of that read and closes the
  scanner a second time.
\<close>

theorem Next_after_DONE_reads_again:
  "Next_times 1 (newDirEntries [TStr ''DONE''])
     = ([False], \<lparr>scanner = \<lparr>pending = [], reads = 1, closes = 1\<rparr>, currentEntry = None, err = None\<rparr>)
   \<and> Next_times 2 (newDirEntries [TStr ''DONE''])
     = ([False, False],
        \<lparr>scanner = \<lparr>pending = [], reads = 2, closes = 2\<rparr>, currentEntry = None,
         err = Some errClosed\<rparr>)"
  by (simp add: numeral_2_eq_2 Next_def readNextDirListEntry_def read_defs scan_def Let_def
      newDirEntries_def newScanner_def Close_def scanner_Close_def)

text \<open>
  Claim C3, as the code has it. For every path whose \<open>Dir\<close> differs from its \<open>Base\<close> (every
  path that does not take the root bypass) and whose parent directory has a cached
  listing, \<open>Stat\<close> makes one call, \<open>Cache.Get\<close> of the parent, and none of the device client,
  whatever the log entry. On a log entry on which cache use has not been reported yet it
  reports a cache hit and returns the entry that the listing's name map has for the base
  name, with no error, or no entry and the "does not exist" error made from the base
  name; on a log entry on which cache use has been reported already, \<open>CacheUsed\<close> panics.
\<close>

theorem Stat_cached_parent:
  assumes "Dir nm \<noteq> Base nm" and "Cache c (Dir nm) = Some entries"
  shows "snd (snd (CachingDeviceClient_Stat c nm log tr)) = tr @ [CacheGet (Dir nm)]
       \<and> (\<not> cacheUsed log \<longrightarrow>
            CachingDeviceClient_Stat c nm log tr =
              ((case ByName entries (Base nm) of
                  Some entry \<Rightarrow> Inr (Some entry, None)
                | None \<Rightarrow>
                    Inr (None,
                         Some (Errorf_w_code (''name '' @ quoted (Base nm)
                                              @ '' does not exist in cached directory listing: '')
                                             FileNoExistError))),
               log\<lparr>cacheUsed := True, cacheHit := True\<rparr>,
               tr @ [CacheGet (Dir nm)]))
       \<and> (cacheUsed log \<longrightarrow>
            CachingDeviceClient_Stat c nm log tr
              = (Inl CacheUseAlreadyReported, log, tr @ [CacheGet (Dir nm)]))"
  using assms
  by (simp add: CachingDeviceClient_Stat_def CacheUsed_def Let_def split: option.splits)

theorem Stat_cached_parent_witness:
  "CachingDeviceClient_Stat exampleClient ''/d/a'' freshLog []
     = (Inr (Some entry_a, None), freshLog\<lparr>cacheUsed := True, cacheHit := True\<rparr>, [CacheGet ''/d''])
   \<and> CachingDeviceClient_Stat exampleClient ''/d/c'' freshLog []
     = (Inr (None, Some (Errorf_w_code (''name '' @ quoted ''c''
                                           @ '' does not exist in cached directory listing: '')
                                          FileNoExistError)),
        freshLog\<lparr>cacheUsed := True, cacheHit := True\<rparr>, [CacheGet ''/d''])
   \<and> CachingDeviceClient_Stat exampleClient ''/d/c'' (freshLog\<lparr>cacheUsed := True\<rparr>) []
     = (Inl CacheUseAlreadyReported, freshLog\<lparr>cacheUsed := True\<rparr>, [CacheGet ''/d''])"
proof -
  have c: "Cache exampleClient ''/d'' = Some (NewCachedDirEntries [entry_a, entry_b])"
    by (simp add: exampleClient_def exampleCache_def)
  have l: "\<not> cacheUsed freshLog" "cacheUsed (freshLog\<lparr>cacheUsed := True\<rparr>)"
    by (simp_all add: freshLog_def StartOperation_def)
  have n: "ByName (NewCachedDirEntries [entry_a, entry_b]) ''a'' = Some entry_a"
    "ByName (NewCachedDirEntries [entry_a, entry_b]) ''c'' = None"
    by (simp_all add: NewCachedDirEntries_def entry_a_def entry_b_def)
  have 1: "Dir ''/d/a'' \<noteq> Base ''/d/a''" "Cache exampleClient (Dir ''/d/a'') = Some (NewCachedDirEntries [entry_a, entry_b])"
    using c by (simp_all add: ex_paths)
  have 2: "Dir ''/d/c'' \<noteq> Base ''/d/c''" "Cache exampleClient (Dir ''/d/c'') = Some (NewCachedDirEntries [entry_a, entry_b])"
    using c by (simp_all add: ex_paths)
  show ?thesis
    using Stat_cached_parent [OF 1, of freshLog "[]"] Stat_cached_parent [OF 2, of freshLog "[]"]
      Stat_cached_parent [OF 2, of "freshLog\<lparr>cacheUsed := True\<rparr>" "[]"] l n
    by (simp add: ex_paths)
qed

text \<open>
  Claim C3 as it is stated fails at the root: the parent of \<open>/\<close> is \<open>/\<close>, a listing of \<open>/\<close>
  is cached, and \<open>Stat\<close> still asks the device, without looking at the cache.
\<close>

theorem Stat_root_with_cached_listing_asks_device:
  "Cache exampleClient (Dir ''/'') = Some (NewCachedDirEntries [entry_d])
   \<and> CachingDeviceClient_Stat exampleClient ''/'' freshLog []
     = (Inr (None, Some (Msg ''asked the device'')), freshLog, [DeviceStat ''/''])"
  by (simp add: CachingDeviceClient_Stat_def ex_paths exampleClient_def exampleCache_def
      exampleDevice_def)

text \<open>
  Claim C4, as the code has it. \<open>Stat\<close> bypasses the cache (no call of the cache, the log
  entry untouched, one call of the device client's \<open>Stat\<close>, whose answer is returned) exactly
  when \<open>Dir\<close> and \<open>Base\<close> of the path are equal. Every path that is its own parent, the
  root, is bypassed; and an absolute path is bypassed exactly when it is made of slashes
  only, that is, when it names the root.
\<close>

theorem Stat_bypass:
  "(CachingDeviceClient_Stat c nm log tr
       = (Inr (DeviceClient_Stat (DeviceClient c) nm), log, tr @ [DeviceStat nm]))
     = (Dir nm = Base nm)
   \<and> (Dir nm = nm \<longrightarrow>
        CachingDeviceClient_Stat c nm log tr
          = (Inr (DeviceClient_Stat (DeviceClient c) nm), log, tr @ [DeviceStat nm]))
   \<and> (nm \<noteq> [] \<and> hd nm = slash \<longrightarrow>
        (CachingDeviceClient_Stat c nm log tr
           = (Inr (DeviceClient_Stat (DeviceClient c) nm), log, tr @ [DeviceStat nm]))
          = (set nm \<subseteq> {slash}))"
proof -
  let ?bypass = "CachingDeviceClient_Stat c nm log tr
       = (Inr (DeviceClient_Stat (DeviceClient c) nm), log, tr @ [DeviceStat nm])"
  have a: "Dir nm = Base nm \<Longrightarrow> ?bypass"
    by (simp add: CachingDeviceClient_Stat_def)
  have b: "Dir nm \<noteq> Base nm \<Longrightarrow> snd (snd (CachingDeviceClient_Stat c nm log tr)) \<noteq> tr @ [DeviceStat nm]"
    by (simp add: CachingDeviceClient_Stat_def Let_def split: option.splits sum.splits)
  have "Dir nm \<noteq> Base nm \<Longrightarrow> \<not> ?bypass"
    using b by (metis snd_conv)
  with a have iff: "?bypass = (Dir nm = Base nm)" by blast
  have root: "Dir nm = nm \<longrightarrow> ?bypass"
    using a root_Dir_Base [of nm] by blast
  have abs: "nm \<noteq> [] \<and> hd nm = slash \<longrightarrow> ?bypass = (set nm \<subseteq> {slash})"
    using iff absolute_Dir_Base [of nm] by simp
  from iff root abs show ?thesis by blast
qed

theorem Stat_bypass_witness:
  "Dir ''/'' = ''/'' \<and> ''/'' \<noteq> [] \<and> hd ''/'' = slash
   \<and> CachingDeviceClient_Stat exampleClient ''/'' freshLog []
       = (Inr (None, Some (Msg ''asked the device'')), freshLog, [DeviceStat ''/''])
   \<and> ''/d/a'' \<noteq> [] \<and> hd ''/d/a'' = slash
   \<and> CachingDeviceClient_Stat exampleClient ''/d/a'' freshLog []
       \<noteq> (Inr (None, Some (Msg ''asked the device'')), freshLog, [DeviceStat ''/d/a''])"
proof -
  have r: "Dir ''/'' = ''/''" by (rule ex_paths)
  have h: "''/'' \<noteq> [] \<and> hd ''/'' = slash" "''/d/a'' \<noteq> [] \<and> hd ''/d/a'' = slash"
    by (simp_all add: slash_def)
  have n: "\<not> set ''/d/a'' \<subseteq> {slash}" by (simp add: slash_def)
  have b1: "CachingDeviceClient_Stat exampleClient ''/'' freshLog []
       = (Inr (DeviceClient_Stat (DeviceClient exampleClient) ''/''), freshLog, [] @ [DeviceStat ''/''])"
    using r Stat_bypass [of exampleClient "''/''" freshLog "[]"] by blast
  have b2: "CachingDeviceClient_Stat exampleClient ''/d/a'' freshLog []
       \<noteq> (Inr (DeviceClient_Stat (DeviceClient exampleClient) ''/d/a''), freshLog, [] @ [DeviceStat ''/d/a''])"
    using h(2) n Stat_bypass [of exampleClient "''/d/a''" freshLog "[]"] by blast
  show ?thesis
    using r b1 b2 by (simp add: slash_def exampleClient_def exampleDevice_def)
qed

text \<open>
  Claim C4 as it is stated fails at \<open>a/a\<close>: its parent is \<open>a\<close>, not the path itself, a
  listing of \<open>a\<close> is cached, and \<open>Stat\<close> bypasses the cache all the same, since \<open>Dir\<close> and
  \<open>Base\<close> are both \<open>a\<close>.
\<close>

theorem Stat_bypass_non_root:
  "Dir ''a/a'' \<noteq> ''a/a''
   \<and> Cache exampleClient (Dir ''a/a'') = Some (NewCachedDirEntries [entry_a])
   \<and> CachingDeviceClient_Stat exampleClient ''a/a'' freshLog []
       = (Inr (None, Some (Msg ''asked the device'')), freshLog, [DeviceStat ''a/a''])"
  by (simp add: CachingDeviceClient_Stat_def ex_paths exampleClient_def exampleDevice_def
      exampleCache_def)

text \<open>
  Claim C5. The code at the input where the claim fails: on a device whose every call
  fails with \<open>DeviceNotFound\<close>, with a handler that counts its invocations, \<open>OpenWrite\<close>
  returns the error and leaves the count at 0, where \<open>OpenRead\<close>, \<open>Stat\<close> and
  \<open>ListDirEntries\<close> return the error and leave it at 1.
\<close>

theorem OpenWrite_skips_disconnect_handler:
  "HasErrCode (snd (Device_OpenWrite (Device countingClient) ''/sdcard/f'' 420 0)) DeviceNotFound
   \<and> goadbDeviceClient_OpenWrite countingClient ''/sdcard/f'' 420 0 0
       = ((None, Some (AdbErr DeviceNotFound)), 0)
   \<and> goadbDeviceClient_OpenRead countingClient ''/sdcard/f'' 0
       = ((None, Some (AdbErr DeviceNotFound)), 1)
   \<and> goadbDeviceClient_Stat countingClient ''/sdcard/f'' 0
       = ((None, Some (AdbErr DeviceNotFound)), 1)
   \<and> goadbDeviceClient_ListDirEntries countingClient ''/sdcard'' 0
       = (Inr ([], Some (AdbErr DeviceNotFound)), 1)"
  by (simp add: goadbDeviceClient_OpenWrite_def goadbDeviceClient_OpenRead_def
      goadbDeviceClient_Stat_def goadbDeviceClient_ListDirEntries_def handleDeviceNotFound_def
      HasErrCode_def countingClient_def lostDevice_def)

text \<open>
  Claim C6. For every write handle that \<open>OpenWrite\<close> returns around a sink of the device
  client, \<open>Close\<close> first closes that sink, then calls \<open>RemoveEventually\<close> for the parent
  directory of the written path, whatever the sink's \<open>Close\<close> returned, and returns what
  the sink's \<open>Close\<close> returned.
\<close>

theorem write_handle_Close_invalidates_parent:
  assumes "DeviceClient_OpenWrite (DeviceClient c) nm perms mtime = (Some s, er)"
  shows "onCloseWriter_Close (fst (fst (CachingDeviceClient_OpenWrite c nm perms mtime log tr))) tr1
           = (Inr (sink_Close s), tr1 @ [SinkClose (sink_id s), CacheRemoveEventually (Dir nm)])"
  using assms by (simp add: CachingDeviceClient_OpenWrite_def onCloseWriter_Close_def)

theorem write_handle_Close_witness:
  "DeviceClient_OpenWrite (DeviceClient exampleClient) ''/d/f'' 420 0 = (Some failingSink, None)
   \<and> onCloseWriter_Close (fst (fst (CachingDeviceClient_OpenWrite exampleClient ''/d/f'' 420 0 freshLog []))) []
       = (Inr (Some (Msg ''close failed'')), [SinkClose 7, CacheRemoveEventually ''/d''])"
proof -
  have o: "DeviceClient_OpenWrite (DeviceClient exampleClient) ''/d/f'' 420 0 = (Some failingSink, None)"
    by (simp add: exampleClient_def exampleDevice_def)
  have d: "Dir ''/d/f'' = ''/d''" by code_simp
  show ?thesis
    using write_handle_Close_invalidates_parent [OF o, of freshLog "[]" "[]"] o d
    by (simp add: failingSink_def)
qed

text \<open>
  Claim C7. When the records decoded so far are followed by a tag other than \<open>DENT\<close> and
  \<open>DONE\<close> (of any length, four characters included), the loop yields the entries decoded
  before it, \<open>Err\<close> is the protocol error whose message quotes the offending tag, and
  any number of further calls of \<open>Next\<close> return false and leave the decoder as it is.
\<close>

theorem decoder_unexpected_tag:
  assumes "t \<noteq> ''DONE''" and "t \<noteq> ''DENT''"
  shows "fst (drive (newDirEntries (concat (map dent es) @ TStr t # rest))) = map Some es
       \<and> Err (snd (drive (newDirEntries (concat (map dent es) @ TStr t # rest))))
           = Some (Msg (''error reading dir entries: expected dir entry ID '' @ quoted ''DENT''
                        @ '', but got '' @ quoted t))
       \<and> (\<forall>k. Next_times k (snd (drive (newDirEntries (concat (map dent es) @ TStr t # rest))))
              = (replicate k False, snd (drive (newDirEntries (concat (map dent es) @ TStr t # rest)))))"
proof -
  let ?d = "newDirEntries (concat (map dent es) @ TStr t # rest)"
  have a: "fst (drive ?d) = map Some es \<and> err (snd (drive ?d)) = Some (unexpectedId t)"
    using assms by (intro drive_badtag [where rest = rest]) (simp_all add: newDirEntries_def newScanner_def)
  then have "err (snd (drive ?d)) \<noteq> None" by simp
  then have "\<forall>k. Next_times k (snd (drive ?d)) = (replicate k False, snd (drive ?d))"
    by (simp add: Next_times_sticky)
  with a show ?thesis by (simp add: Err_def unexpectedId_def)
qed

theorem decoder_unexpected_tag_witness:
  "''XXXX'' \<noteq> ''DONE'' \<and> ''XXXX'' \<noteq> ''DENT''
   \<and> fst (drive (newDirEntries (concat (map dent [\<lparr>Name = ''a'', Mode = 420, Size = 7, ModifiedAt = 3\<rparr>])
                                  @ TStr ''XXXX'' # [TStr ''DONE''])))
       = [Some \<lparr>Name = ''a'', Mode = 420, Size = 7, ModifiedAt = 3\<rparr>]
   \<and> Err (snd (drive (newDirEntries (concat (map dent [\<lparr>Name = ''a'', Mode = 420, Size = 7, ModifiedAt = 3\<rparr>])
                                  @ TStr ''XXXX'' # [TStr ''DONE'']))))
       = Some (Msg (''error reading dir entries: expected dir entry ID '' @ quoted ''DENT''
                    @ '', but got '' @ quoted ''XXXX''))
   \<and> fst (Next_times 3 (snd (drive (newDirEntries
           (concat (map dent [\<lparr>Name = ''a'', Mode = 420, Size = 7, ModifiedAt = 3\<rparr>])
            @ TStr ''XXXX'' # [TStr ''DONE''])))))
       = [False, False, False]"
proof -
  have t: "''XXXX'' \<noteq> ''DONE''" "''XXXX'' \<noteq> ''DENT''" by simp_all
  show ?thesis
    using decoder_unexpected_tag [OF t, of "[\<lparr>Name = ''a'', Mode = 420, Size = 7, ModifiedAt = 3\<rparr>]"
        "[TStr ''DONE'']"]
    by (simp add: numeral_3_eq_3)
qed

text \<open>
  Claim C8. The code at the inputs where the claim fails: on every well-formed listing
  (its records, then \<open>DONE\<close>), the iteration up to the first false has closed the scanner
  once and left \<open>Err\<close> \<open>nil\<close>; one more call of \<open>Next\<close> is not stopped by the check of
  \<open>err\<close>, reads from the closed scanner, returns false and closes the scanner a second
  time.
\<close>

theorem Next_after_DONE_closes_again:
  "closes (scanner (snd (drive (newDirEntries (listing es))))) = 1
   \<and> Err (snd (drive (newDirEntries (listing es)))) = None
   \<and> fst (Next (snd (drive (newDirEntries (listing es))))) = False
   \<and> closes (scanner (snd (Next (snd (drive (newDirEntries (listing es))))))) = 2"
proof -
  let ?d = "snd (drive (newDirEntries (listing es)))"
  have a: "err ?d = None \<and> closes (scanner ?d) = 1"
    using drive_listing [of "newDirEntries (listing es)" es]
    by (simp add: newDirEntries_def newScanner_def)
  then have "Next ?d = (False, ?d\<lparr>scanner := (scanner ?d)\<lparr>reads := Suc (reads (scanner ?d)), closes := 2\<rparr>,
                                   err := Some errClosed\<rparr>)"
    by (simp add: Next_def readNextDirListEntry_def read_defs scan_def Let_def Close_def
        scanner_Close_def)
  with a show ?thesis by (simp add: Err_def)
qed

text \<open>
  Claim C9. For every \<open>LogEntry\<close>: a call of \<open>Error\<close>, \<open>Result\<close>, \<open>Status\<close> or \<open>CacheUsed\<close>
  on an entry whose field is already set panics, and the entry is not changed; a call on
  an entry whose field is not set returns and records the value; and after a call that
  has returned and recorded an error, a non-empty result, a non-empty status or a cache
  use, a second call of the same setter panics.
\<close>

theorem LogEntry_fields_set_once:
  "(\<forall>old. log_err r = Some old \<longrightarrow> Error r e = Inl (ErrAlreadySet old e))
   \<and> (log_err r = None \<longrightarrow> Error r e = Inr (r\<lparr>log_err := e\<rparr>))
   \<and> (result r \<noteq> [] \<longrightarrow> Result r msg = Inl (ResultAlreadySet (result r) msg))
   \<and> (result r = [] \<longrightarrow> Result r msg = Inr (r\<lparr>result := msg\<rparr>))
   \<and> (status r \<noteq> [] \<longrightarrow> Status String r st = Inl (StatusAlreadySet (status r) (String st)))
   \<and> (status r = [] \<longrightarrow> Status String r st = Inr (st, r\<lparr>status := String st\<rparr>))
   \<and> (cacheUsed r \<longrightarrow> CacheUsed r hit = Inl CacheUseAlreadyReported)
   \<and> (\<not> cacheUsed r \<longrightarrow> CacheUsed r hit = Inr (r\<lparr>cacheUsed := True, cacheHit := hit\<rparr>))
   \<and> (\<forall>r1. Error r (Some x) = Inr r1 \<longrightarrow> Error r1 e = Inl (ErrAlreadySet x e))
   \<and> (\<forall>r1. msg1 \<noteq> [] \<longrightarrow> Result r msg1 = Inr r1 \<longrightarrow>
          Result r1 msg = Inl (ResultAlreadySet msg1 msg))
   \<and> (\<forall>r1. String st1 \<noteq> [] \<longrightarrow> Status String r st1 = Inr (st1, r1) \<longrightarrow>
          Status String r1 st = Inl (StatusAlreadySet (String st1) (String st)))
   \<and> (\<forall>r1. CacheUsed r hit1 = Inr r1 \<longrightarrow> CacheUsed r1 hit = Inl CacheUseAlreadyReported)"
  by (auto simp: Error_def Result_def Status_def CacheUsed_def split: option.splits if_splits)

theorem LogEntry_fields_set_once_witness:
  "Error (StartOperation 0 ''GetAttr'' ''/d'') (Some (Msg ''boom''))
     = Inr ((StartOperation 0 ''GetAttr'' ''/d'')\<lparr>log_err := Some (Msg ''boom'')\<rparr>)
   \<and> Error ((StartOperation 0 ''GetAttr'' ''/d'')\<lparr>log_err := Some (Msg ''boom'')\<rparr>) (Some (Msg ''again''))
     = Inl (ErrAlreadySet (Msg ''boom'') (Some (Msg ''again'')))
   \<and> Result (StartOperation 0 ''GetAttr'' ''/d'') ''done''
     = Inr ((StartOperation 0 ''GetAttr'' ''/d'')\<lparr>result := ''done''\<rparr>)
   \<and> Result ((StartOperation 0 ''GetAttr'' ''/d'')\<lparr>result := ''done''\<rparr>) ''more''
     = Inl (ResultAlreadySet ''done'' ''more'')
   \<and> Status statusName (StartOperation 0 ''GetAttr'' ''/d'') 0
     = Inr (0, (StartOperation 0 ''GetAttr'' ''/d'')\<lparr>status := ''OK''\<rparr>)
   \<and> Status statusName ((StartOperation 0 ''GetAttr'' ''/d'')\<lparr>status := ''OK''\<rparr>) 1
     = Inl (StatusAlreadySet ''OK'' ''ENOENT'')
   \<and> CacheUsed (StartOperation 0 ''GetAttr'' ''/d'') True
     = Inr ((StartOperation 0 ''GetAttr'' ''/d'')\<lparr>cacheUsed := True, cacheHit := True\<rparr>)
   \<and> CacheUsed ((StartOperation 0 ''GetAttr'' ''/d'')\<lparr>cacheUsed := True, cacheHit := True\<rparr>) False
     = Inl CacheUseAlreadyReported"
proof -
  let ?r = "StartOperation 0 ''GetAttr'' ''/d''"
  have fresh: "log_err ?r = None" "result ?r = []" "status ?r = []" "\<not> cacheUsed ?r"
    by (simp_all add: StartOperation_def)
  have used: "log_err (?r\<lparr>log_err := Some (Msg ''boom'')\<rparr>) = Some (Msg ''boom'')"
    "result (?r\<lparr>result := ''done''\<rparr>) \<noteq> []" "status (?r\<lparr>status := ''OK''\<rparr>) \<noteq> []"
    "cacheUsed (?r\<lparr>cacheUsed := True, cacheHit := True\<rparr>)"
    by simp_all
  show ?thesis
    using fresh used
      LogEntry_fields_set_once [of ?r "Some (Msg ''boom'')" "''done''" statusName "0::nat" True]
      LogEntry_fields_set_once [of ?r "Some (Msg ''again'')" "''more''" statusName "1::nat" False
        "Msg ''boom''" "''done''" "0::nat" True]
      LogEntry_fields_set_once [of "?r\<lparr>log_err := Some (Msg ''boom'')\<rparr>" "Some (Msg ''again'')"
        "''more''" statusName "1::nat" False]
      LogEntry_fields_set_once [of "?r\<lparr>result := ''done''\<rparr>" "Some (Msg ''again'')"
        "''more''" statusName "1::nat" False]
      LogEntry_fields_set_once [of "?r\<lparr>status := ''OK''\<rparr>" "Some (Msg ''again'')"
        "''more''" statusName "1::nat" False]
      LogEntry_fields_set_once [of "?r\<lparr>cacheUsed := True, cacheHit := True\<rparr>" "Some (Msg ''again'')"
        "''more''" statusName "1::nat" False]
    by (simp add: statusName_def)
qed

text \<open>
  Claim C10. For \<open>n\<close> racing disconnect notifications and \<open>m\<close> direct calls of
  \<open>unmountServer\<close>, under every schedule: the unmounts done and the threads about to
  unmount are one together if the flag is set and none otherwise, so that only the thread
  whose compare-and-swap set the flag unmounts; and when there is at least one thread and
  every thread has been given its four steps, all threads are finished and the server has
  been unmounted exactly once.
\<close>

theorem unmount_exactly_once:
  "unmounts (run schedule (start n m)) + count_list (threads (run schedule (start n m))) AtUnmount
     = (if unmounted (run schedule (start n m)) then 1 else 0)
   \<and> (0 < n + m \<and> (\<forall>j < n + m. 4 \<le> count_list schedule j) \<longrightarrow>
        threads (run schedule (start n m)) = replicate (n + m) Done
        \<and> unmounts (run schedule (start n m)) = 1)"
proof -
  let ?s = "run schedule (start n m)"
  have inv: "unmount_inv ?s" using start_inv by (rule run_inv)
  have len0: "length (threads (start n m)) = n + m" by (simp add: start_def)
  have a: "unmounts ?s + count_list (threads ?s) AtUnmount = (if unmounted ?s then 1 else 0)"
    using inv by (simp add: unmount_inv_def)
  have b: "threads ?s = replicate (n + m) Done \<and> unmounts ?s = 1"
    if pos: "0 < n + m" and fair: "\<forall>j < n + m. 4 \<le> count_list schedule j"
  proof -
    have len: "length (threads ?s) = n + m"
      using run_rank [OF start_inv, of 0 n m schedule] pos len0 by simp
    have all: "threads ?s ! j = Done" if j: "j < n + m" for j
    proof -
      have "min 4 (rank (threads (start n m) ! j) + count_list schedule j) \<le> rank (threads ?s ! j)"
        using run_rank [OF start_inv, of j n m schedule] j len0 by simp
      moreover have "4 \<le> count_list schedule j" using fair j by simp
      ultimately have "rank (threads ?s ! j) = 4"
        using rank_le_4 [of "threads ?s ! j"] by simp
      then have "threads ?s ! j = Done \<or> threads ?s ! j = Panicked" by (rule rank_4)
      moreover have "threads ?s ! j \<in> set (threads ?s)" using j len by simp
      ultimately show ?thesis using inv by (auto simp: unmount_inv_def)
    qed
    have t: "threads ?s = replicate (n + m) Done"
      using len all by (simp add: list_eq_iff_nth_eq)
    then have "Done \<in> set (threads ?s)" using pos by simp
    then have "unmounted ?s" using inv by (simp add: unmount_inv_def)
    moreover have "count_list (threads ?s) AtUnmount = 0" using t by (simp add: count_list_0_iff)
    ultimately show ?thesis using a t by simp
  qed
  from a b show ?thesis by blast
qed

theorem unmount_exactly_once_witness:
  "4 \<le> count_list [0, 1, 0, 1, 1, 0, 0, 1] (0::nat)
   \<and> 4 \<le> count_list [0, 1, 0, 1, 1, 0, 0, 1] (1::nat)
   \<and> threads (run [0, 1, 0, 1, 1, 0, 0, 1] (start 2 0)) = [Done, Done]
   \<and> unmounts (run [0, 1, 0, 1, 1, 0, 0, 1] (start 2 0)) = 1"
proof -
  have c: "4 \<le> count_list [0, 1, 0, 1, 1, 0, 0, 1] (0::nat)"
    "4 \<le> count_list [0, 1, 0, 1, 1, 0, 0, 1] (1::nat)"
    by simp_all
  then have f: "\<forall>j < 2 + 0. 4 \<le> count_list [0, 1, 0, 1, 1, 0, 0, 1] (j::nat)"
    by (auto simp: less_Suc_eq numeral_2_eq_2)
  have p: "(0::nat) < 2 + 0" by simp
  show ?thesis
    using unmount_exactly_once [of "[0, 1, 0, 1, 1, 0, 0, 1]" 2 0] f p c
    by (simp add: numeral_2_eq_2)
qed

end
